theory Spec2Isabelle
  imports Main "HOL-Library.Signed_Division" "HOL-Library.Sublist"
begin

section \<open>The slice operations of the Go library that cache.go calls\<close>

text \<open>
  A Go slice is modelled by the list of its elements. \<open>append(s, x)\<close> is \<open>s @ [x]\<close>,
  \<open>s[1:]\<close> is \<open>drop 1 s\<close> and \<open>s[0:k]\<close> is \<open>take k s\<close>. The functions below are the
  loops of package \<open>slices\<close> and the builtin \<open>copy\<close>.
\<close>

text \<open>\<open>slices.IndexFunc\<close>: the first index whose element satisfies \<open>f\<close>, or \<open>-1\<close>.
  The first argument is the loop counter.\<close>

fun IndexFunc_from :: "int \<Rightarrow> 'a list \<Rightarrow> ('a \<Rightarrow> bool) \<Rightarrow> int" where
  "IndexFunc_from i [] f = - 1"
| "IndexFunc_from i (x # xs) f = (if f x then i else IndexFunc_from (i + 1) xs f)"

definition slices_IndexFunc :: "'a list \<Rightarrow> ('a \<Rightarrow> bool) \<Rightarrow> int" where
  "slices_IndexFunc s f = IndexFunc_from 0 s f"

definition slices_Index :: "'a list \<Rightarrow> 'a \<Rightarrow> int" where
  "slices_Index s v = slices_IndexFunc s (\<lambda>x. x = v)"

definition slices_ContainsFunc :: "'a list \<Rightarrow> ('a \<Rightarrow> bool) \<Rightarrow> bool" where
  "slices_ContainsFunc s f = (slices_IndexFunc s f \<ge> 0)"

definition slices_Contains :: "'a list \<Rightarrow> 'a \<Rightarrow> bool" where
  "slices_Contains s v = (slices_Index s v \<ge> 0)"

text \<open>\<open>copy(dst, src)\<close> overwrites the first \<open>min (len dst) (len src)\<close> elements of
  \<open>dst\<close>; the value is \<open>dst\<close> afterwards.\<close>

definition slices_copy :: "'a list \<Rightarrow> 'a list \<Rightarrow> 'a list" where
  "slices_copy dst src =
     (let n = min (length dst) (length src) in take n src @ drop n dst)"

section \<open>The resident-page set: \<open>pageCache\<close>\<close>

record pageCache =
  pages :: "int list"

definition cacheSize :: int where
  "cacheSize = 5"

text \<open>The zero value \<open>var cache pageCache\<close>.\<close>

definition pageCache_zero :: pageCache where
  "pageCache_zero = \<lparr>pages = []\<rparr>"

definition pageCache_contains :: "pageCache \<Rightarrow> int \<Rightarrow> bool" where
  "pageCache_contains pc page = slices_Contains (pages pc) page"

text \<open>
  \<open>pageCache.add\<close> returns the pair \<open>(evicted page, evicted)\<close> and mutates the
  receiver; the model returns the pair together with the receiver afterwards. In the
  last branch the slice has at least \<open>cacheSize + 1\<close> elements, so both index
  expressions and the reslice \<open>[0:cacheSize]\<close> are in range.
\<close>

definition pageCache_add :: "pageCache \<Rightarrow> int \<Rightarrow> (int \<times> bool) \<times> pageCache" where
  "pageCache_add pc page =
     (if pageCache_contains pc page then ((0, False), pc)
      else if int (length (pages pc)) < cacheSize
        then ((0, False), pc\<lparr>pages := pages pc @ [page]\<rparr>)
      else
        (let ps = sort (pages pc @ [page]);
             i = slices_Index ps page
         in if i \<ge> cacheSize - i - 1
            then ((ps ! 0, True),
                  pc\<lparr>pages := take (nat cacheSize) (slices_copy ps (drop 1 ps))\<rparr>)
            else ((ps ! nat (cacheSize - 1), True),
                  pc\<lparr>pages := take (nat cacheSize) ps\<rparr>)))"

text \<open>The operations the coordinator performs on its resident-page set, and a run of
  them from the zero value.\<close>

datatype pageCache_op = OpContains int | OpAdd int

fun pageCache_apply :: "pageCache \<Rightarrow> pageCache_op \<Rightarrow> pageCache" where
  "pageCache_apply pc (OpContains page) = pc"
| "pageCache_apply pc (OpAdd page) = snd (pageCache_add pc page)"

definition pageCache_run :: "pageCache_op list \<Rightarrow> pageCache" where
  "pageCache_run ops = foldl pageCache_apply pageCache_zero ops"

section \<open>Faults\<close>

text \<open>
  The ways a call of cache.go can fail to return: a run-time panic of Go (integer
  division by zero, an index out of range, a negative \<open>WaitGroup\<close> counter), the
  coordinator's own \<open>panic\<close> for a ready page that is not in progress, and a send on
  a nil channel, which blocks the caller for ever.
\<close>

datatype fault =
    DivideByZero
  | IndexOutOfRange
  | NegativeWaitGroup
  | NotInProgress int
  | NilChannelSend

section \<open>The in-flight tracker: \<open>loader\<close>\<close>

text \<open>A value of type \<open>chan int\<close> is modelled by its identity; the nil channel of an
  optional field is \<open>None\<close>.\<close>

type_synonym chan = nat

text \<open>\<open>pageRequest\<close>: the fields \<open>page\<close> and \<open>done\<close> of the source.\<close>

record pageRequest =
  req_page :: int
  req_done :: "chan option"

text \<open>\<open>inProgress\<close>: the fields \<open>p\<close> and \<open>reply\<close> of the source.\<close>

record inProgress =
  p_page :: int
  reply :: "chan list"

record loader =
  loading :: "inProgress list"

definition loader_zero :: loader where
  "loader_zero = \<lparr>loading = []\<rparr>"

definition loader_isActive :: "loader \<Rightarrow> int \<Rightarrow> bool" where
  "loader_isActive l page = slices_ContainsFunc (loading l) (\<lambda>this. p_page this = page)"

text \<open>The local closure of \<open>track\<close>: append \<open>c\<close> to \<open>s\<close> only if \<open>c\<close> is not nil.\<close>

definition appendNotNil :: "chan list \<Rightarrow> chan option \<Rightarrow> chan list" where
  "appendNotNil s c = (case c of None \<Rightarrow> s | Some ch \<Rightarrow> s @ [ch])"

text \<open>\<open>loader.track\<close> returns whether the request is for a new page, and the receiver
  afterwards. When \<open>i \<noteq> -1\<close> the index is that of an element, so \<open>l.loading[i]\<close> is in
  range.\<close>

definition loader_track :: "loader \<Rightarrow> pageRequest \<Rightarrow> bool \<times> loader" where
  "loader_track l req =
     (let i = slices_IndexFunc (loading l) (\<lambda>this. p_page this = req_page req)
      in if i \<noteq> - 1
         then (False,
               l\<lparr>loading := (loading l)[nat i :=
                   (loading l ! nat i)\<lparr>reply :=
                      appendNotNil (reply (loading l ! nat i)) (req_done req)\<rparr>]\<rparr>)
         else (True,
               l\<lparr>loading := loading l @
                   [\<lparr>p_page = req_page req, reply = appendNotNil [] (req_done req)\<rparr>]\<rparr>))"

text \<open>
  \<open>loader.done\<close> sends the page number on every channel of the entry, in order, then
  overwrites the entry with the last one and drops the last. The model returns the
  sends (channel, value) and the receiver afterwards. The function has no failing
  branch: when no entry is found it does nothing.
\<close>

definition loader_done :: "loader \<Rightarrow> int \<Rightarrow> (chan \<times> int) list \<times> loader" where
  "loader_done l page =
     (let i = slices_IndexFunc (loading l) (\<lambda>this. p_page this = page)
      in if i \<ge> 0
         then (map (\<lambda>c. (c, page)) (reply (loading l ! nat i)),
               l\<lparr>loading := take (length (loading l) - 1)
                   ((loading l)[nat i := loading l ! (length (loading l) - 1)])\<rparr>)
         else ([], l))"

text \<open>The two mutators of the tracker, and a run of them from the zero value.\<close>

datatype loader_op = OpTrack pageRequest | OpDone int

fun loader_apply :: "loader \<Rightarrow> loader_op \<Rightarrow> loader" where
  "loader_apply l (OpTrack req) = snd (loader_track l req)"
| "loader_apply l (OpDone page) = snd (loader_done l page)"

definition loader_run :: "loader_op list \<Rightarrow> loader" where
  "loader_run ops = foldl loader_apply loader_zero ops"

section \<open>The coordinator: the goroutine of \<open>startPreFetcher\<close>\<close>

text \<open>
  The goroutine owns \<open>cache\<close> and \<open>inflight\<close>. One iteration of its loop receives one
  message: a request from \<open>in\<close>, the closing of \<open>in\<close>, or a page number from \<open>ready\<close>.
  What it does besides updating its state is a list of effects: a send on a
  requester's channel, the start of a load worker (\<open>loadPage\<close> then \<open>ready <- p\<close>) and
  the start of an unload worker (\<open>unloadPage\<close>). The logging under \<open>*verbose\<close> is left
  out.
\<close>

record coordinator =
  cache :: pageCache
  inflight :: loader

definition coordinator_zero :: coordinator where
  "coordinator_zero = \<lparr>cache = pageCache_zero, inflight = loader_zero\<rparr>"

datatype message = Request pageRequest | Closed | Ready int

datatype effect = Send chan int | GoLoadPage int | GoUnloadPage int

datatype step = Running "effect list" coordinator | Returned | Panicked fault

definition coordinator_step :: "coordinator \<Rightarrow> message \<Rightarrow> step" where
  "coordinator_step st m =
     (case m of
        Closed \<Rightarrow> Returned
      | Request req \<Rightarrow>
          if pageCache_contains (cache st) (req_page req)
          then (case req_done req of
                  None \<Rightarrow> Running [] st
                | Some ch \<Rightarrow> Running [Send ch (req_page req)] st)
          else (case loader_track (inflight st) req of
                  (True, l') \<Rightarrow> Running [GoLoadPage (req_page req)] (st\<lparr>inflight := l'\<rparr>)
                | (False, l') \<Rightarrow> Running [] (st\<lparr>inflight := l'\<rparr>))
      | Ready page \<Rightarrow>
          if \<not> loader_isActive (inflight st) page then Panicked (NotInProgress page)
          else (case pageCache_add (cache st) page of
                  ((ep, evicted), pc') \<Rightarrow>
                    (case loader_done (inflight st) page of
                       (sends, l') \<Rightarrow>
                         Running ((if evicted then [GoUnloadPage ep] else [])
                                    @ map (\<lambda>(c, v). Send c v) sends)
                                 \<lparr>cache = pc', inflight = l'\<rparr>)))"

text \<open>The loop: the messages are handled one after the other until the goroutine
  returns or panics. The result is the effects in order and how the run ended.\<close>

fun coordinator_run :: "coordinator \<Rightarrow> message list \<Rightarrow> effect list \<times> step" where
  "coordinator_run st [] = ([], Running [] st)"
| "coordinator_run st (m # ms) =
     (case coordinator_step st m of
        Running es st' \<Rightarrow> (case coordinator_run st' ms of (es', r) \<Rightarrow> (es @ es', r))
      | Returned \<Rightarrow> ([], Returned)
      | Panicked f \<Rightarrow> ([], Panicked f))"

section \<open>The facade: \<open>CachedSlicePaged\<close>\<close>

text \<open>
  Go's \<open>int\<close> is modelled by \<open>int\<close>; \<open>/\<close> and \<open>%\<close> truncate towards zero
  (\<open>sdiv\<close>, \<open>smod\<close>) and panic on a zero divisor. No item is modelled beyond its
  position in \<open>items\<close>: a call of \<open>Load\<close> or \<open>Unload\<close> is recorded by that position.
\<close>

record 'e CachedSlicePaged =
  name :: string
  items :: "'e list"
  pageSize :: int
  fetchC :: "chan option"

definition intCeil :: "int \<Rightarrow> int \<Rightarrow> fault + int" where
  "intCeil a b =
     (if b = 0 then Inl DivideByZero
      else (let n = a sdiv b in Inr (if a smod b > 0 then n + 1 else n)))"

definition numPages :: "'e CachedSlicePaged \<Rightarrow> fault + int" where
  "numPages c = intCeil (int (length (items c))) (pageSize c)"

definition Len :: "'e CachedSlicePaged \<Rightarrow> int" where
  "Len c = int (length (items c))"

text \<open>What the calling goroutine does, in order: a send of a request on \<open>fetchC\<close>, a
  receive from a request's channel, the closing of \<open>fetchC\<close>, and the start of a
  goroutine that unloads one item.\<close>

datatype action =
    SendRequest chan pageRequest
  | Receive chan
  | Close chan
  | GoUnload nat

text \<open>The guard \<open>0 <= p && p < c.numPages()\<close>; \<open>numPages\<close> is not evaluated when
  \<open>p\<close> is negative.\<close>

definition pageInRange :: "'e CachedSlicePaged \<Rightarrow> int \<Rightarrow> fault + bool" where
  "pageInRange c p =
     (if 0 \<le> p
      then (case numPages c of Inl f \<Rightarrow> Inl f | Inr n \<Rightarrow> Inr (p < n))
      else Inr False)"

text \<open>\<open>fetchPageNow\<close>; \<open>fresh\<close> is the channel that \<open>make(chan int, 1)\<close> returns. The
  result is the actions performed and the fault that stopped them, if any.\<close>

definition fetchPageNow ::
  "'e CachedSlicePaged \<Rightarrow> chan \<Rightarrow> int \<Rightarrow> action list \<times> fault option" where
  "fetchPageNow c fresh p =
     (case pageInRange c p of
        Inl f \<Rightarrow> ([], Some f)
      | Inr False \<Rightarrow> ([], None)
      | Inr True \<Rightarrow>
          (case fetchC c of
             None \<Rightarrow> ([], Some NilChannelSend)
           | Some ch \<Rightarrow>
               ([SendRequest ch \<lparr>req_page = p, req_done = Some fresh\<rparr>, Receive fresh],
                None)))"

fun fetchPagesLater ::
  "'e CachedSlicePaged \<Rightarrow> int list \<Rightarrow> action list \<times> fault option" where
  "fetchPagesLater c [] = ([], None)"
| "fetchPagesLater c (p # ps) =
     (case pageInRange c p of
        Inl f \<Rightarrow> ([], Some f)
      | Inr False \<Rightarrow> fetchPagesLater c ps
      | Inr True \<Rightarrow>
          (case fetchC c of
             None \<Rightarrow> ([], Some NilChannelSend)
           | Some ch \<Rightarrow>
               (case fetchPagesLater c ps of
                  (as, r) \<Rightarrow> (SendRequest ch \<lparr>req_page = p, req_done = None\<rparr> # as, r))))"

text \<open>
  \<open>At\<close>: the actions performed, and either the fault that ended the call or the
  returned pair, \<open>None\<close> for \<open>(zero, false)\<close> and \<open>Some item\<close> for \<open>(item, true)\<close>.
  The only test on \<open>pos\<close> before the final \<open>c.items[pos]\<close> is \<open>pos >= len(c.items)\<close>.
\<close>

definition At ::
  "'e CachedSlicePaged \<Rightarrow> chan \<Rightarrow> int \<Rightarrow> action list \<times> (fault + 'e option)" where
  "At c fresh pos =
     (if pos \<ge> int (length (items c)) then ([], Inr None)
      else if pageSize c = 0 then ([], Inl DivideByZero)
      else
        (let page = pos sdiv pageSize c
         in case fetchPagesLater c [page - 1, page + 1] of
              (as1, Some f) \<Rightarrow> (as1, Inl f)
            | (as1, None) \<Rightarrow>
                (case fetchPageNow c fresh page of
                   (as2, Some f) \<Rightarrow> (as1 @ as2, Inl f)
                 | (as2, None) \<Rightarrow>
                     if pos < 0 then (as1 @ as2, Inl IndexOutOfRange)
                     else (as1 @ as2, Inr (Some (items c ! nat pos))))))"

definition stopPreFetcher :: "'e CachedSlicePaged \<Rightarrow> action list \<times> 'e CachedSlicePaged" where
  "stopPreFetcher c =
     ((case fetchC c of None \<Rightarrow> [] | Some ch \<Rightarrow> [Close ch]), c\<lparr>fetchC := None\<rparr>)"

definition Free :: "'e CachedSlicePaged \<Rightarrow> action list \<times> 'e CachedSlicePaged" where
  "Free c =
     (case stopPreFetcher c of
        (as, c') \<Rightarrow> (as @ map GoUnload [0..<length (items c')], c'))"

text \<open>\<open>NewCachedSlicePaged\<close>; \<open>ch\<close> is the channel that \<open>startPreFetcher\<close> makes, and
  the coordinator starts from the zero values of its two variables.\<close>

definition NewCachedSlicePaged ::
  "string \<Rightarrow> 'e list \<Rightarrow> int \<Rightarrow> chan \<Rightarrow> 'e CachedSlicePaged \<times> coordinator" where
  "NewCachedSlicePaged nm its ps ch =
     (\<lparr>name = nm, items = its, pageSize = ps, fetchC = Some ch\<rparr>, coordinator_zero)"

text \<open>The requests among the actions of a call, as the messages the coordinator
  receives.\<close>

fun requests :: "action list \<Rightarrow> message list" where
  "requests [] = []"
| "requests (SendRequest ch req # as) = Request req # requests as"
| "requests (a # as) = requests as"

text \<open>
  \<open>mapPageItems\<close>: the positions of the items that \<open>fn\<close> is applied to, each in a
  goroutine of its own. \<open>wg.Add\<close> panics on a negative count, and \<open>c.items[j]\<close> on a
  negative position.
\<close>

definition mapPageItems :: "'e CachedSlicePaged \<Rightarrow> int \<Rightarrow> fault + nat list" where
  "mapPageItems c p =
     (let begin = p * pageSize c;
          endp = min (int (length (items c))) (begin + pageSize c)
      in if endp - begin < 0 then Inl NegativeWaitGroup
         else if begin < endp \<and> begin < 0 then Inl IndexOutOfRange
         else Inr (map nat [begin..endp - 1]))"

section \<open>The range iterator: \<open>Get\<close>\<close>

text \<open>
  \<open>Get\<close> is written against the interface \<open>CachedSlice\<close>: \<open>at\<close> is any \<open>At\<close>, acting on
  a state of its own, and \<open>yield\<close> is the consumer, acting on the consumer's state and
  answering whether it wants more. The result is how the loop ended, the value of the
  loop variable then, the two states, and the events of the run in order.
\<close>

datatype 'e get_event = CallAt int | Yield 'e

function Get ::
  "(int \<Rightarrow> 's \<Rightarrow> (fault + 'e option) \<times> 's) \<Rightarrow> int \<Rightarrow> int \<Rightarrow> ('e \<Rightarrow> 'y \<Rightarrow> bool \<times> 'y)
     \<Rightarrow> 's \<Rightarrow> 'y \<Rightarrow> fault option \<times> int \<times> 's \<times> 'y \<times> 'e get_event list" where
  "Get at frm til yield s y =
     (if frm < til
      then (case at frm s of
              (Inl f, s') \<Rightarrow> (Some f, frm, s', y, [CallAt frm])
            | (Inr None, s') \<Rightarrow> (None, frm, s', y, [CallAt frm])
            | (Inr (Some i), s') \<Rightarrow>
                (case yield i y of
                   (False, y') \<Rightarrow> (None, frm, s', y', [CallAt frm, Yield i])
                 | (True, y') \<Rightarrow>
                     (case Get at (frm + 1) til yield s' y' of
                        (r, frm', s'', y'', es) \<Rightarrow>
                          (r, frm', s'', y'', CallAt frm # Yield i # es))))
      else (None, frm, s, y, []))"
  by pat_completeness auto
termination
  by (relation "measure (\<lambda>(at, frm, til, yield, s, y). nat (til - frm))") auto

text \<open>
  The iterator as the specification words it: walk the indices of \<open>[from, to)\<close> in
  order, call \<open>At\<close> on each, yield the item found, and stop at the first index that
  is not found or when the consumer stops.
\<close>

fun Get_spec ::
  "(int \<Rightarrow> 's \<Rightarrow> (fault + 'e option) \<times> 's) \<Rightarrow> int list \<Rightarrow> ('e \<Rightarrow> 'y \<Rightarrow> bool \<times> 'y)
     \<Rightarrow> 's \<Rightarrow> 'y \<Rightarrow> fault option \<times> 's \<times> 'y \<times> 'e get_event list" where
  "Get_spec at [] yield s y = (None, s, y, [])"
| "Get_spec at (k # ks) yield s y =
     (case at k s of
        (Inl f, s') \<Rightarrow> (Some f, s', y, [CallAt k])
      | (Inr None, s') \<Rightarrow> (None, s', y, [CallAt k])
      | (Inr (Some i), s') \<Rightarrow>
          (case yield i y of
             (False, y') \<Rightarrow> (None, s', y', [CallAt k, Yield i])
           | (True, y') \<Rightarrow>
               (case Get_spec at ks yield s' y' of
                  (r, s'', y'', es) \<Rightarrow> (r, s'', y'', CallAt k # Yield i # es))))"

text \<open>The indices on which a run called \<open>At\<close>, and the items it yielded.\<close>

fun calls :: "'e get_event list \<Rightarrow> int list" where
  "calls [] = []"
| "calls (CallAt k # es) = k # calls es"
| "calls (Yield i # es) = calls es"

fun yields :: "'e get_event list \<Rightarrow> 'e list" where
  "yields [] = []"
| "yields (CallAt k # es) = yields es"
| "yields (Yield i # es) = i # yields es"

text \<open>The events of a result of \<open>Get\<close>.\<close>

definition Get_events ::
  "fault option \<times> int \<times> 's \<times> 'y \<times> 'e get_event list \<Rightarrow> 'e get_event list" where
  "Get_events r = snd (snd (snd (snd r)))"

text \<open>
  \<open>At\<close> of a \<open>CachedSlicePaged\<close> as the method that \<open>Get\<close> calls: the state is the next
  unused channel and the actions performed so far. The consumer of \<open>slices.Collect\<close>
  appends every item and always asks for more.
\<close>

definition CachedSlicePaged_At ::
  "'e CachedSlicePaged \<Rightarrow> int \<Rightarrow> chan \<times> action list \<Rightarrow> (fault + 'e option) \<times> (chan \<times> action list)" where
  "CachedSlicePaged_At c pos st =
     (case st of (fresh, done_before) \<Rightarrow>
        (case At c fresh pos of (as, r) \<Rightarrow> (r, (fresh + 1, done_before @ as))))"

definition Collect_yield :: "'e \<Rightarrow> 'e list \<Rightarrow> bool \<times> 'e list" where
  "Collect_yield i collected = (True, collected @ [i])"

section \<open>Facts about the slice operations\<close>

lemma IndexFunc_from_none:
  "0 \<le> i \<Longrightarrow> (IndexFunc_from i s f = - 1) = (\<forall>x \<in> set s. \<not> f x)"
  by (induction s arbitrary: i) auto

lemma IndexFunc_from_range:
  "0 \<le> i \<Longrightarrow> IndexFunc_from i s f = - 1 \<or> (i \<le> IndexFunc_from i s f \<and> IndexFunc_from i s f < i + int (length s))"
proof (induction s arbitrary: i)
  case Nil
  then show ?case by simp
next
  case (Cons a s)
  from Cons.IH [of "i + 1"] Cons.prems
  have "IndexFunc_from (i + 1) s f = - 1 \<or>
    (i + 1 \<le> IndexFunc_from (i + 1) s f \<and> IndexFunc_from (i + 1) s f < i + 1 + int (length s))"
    by simp
  then show ?case by auto
qed

lemma IndexFunc_from_shift:
  "0 \<le> i \<Longrightarrow> \<exists>x \<in> set s. f x \<Longrightarrow> IndexFunc_from i s f = i + IndexFunc_from 0 s f"
proof (induction s arbitrary: i)
  case Nil
  then show ?case by simp
next
  case (Cons a s)
  show ?case
  proof (cases "f a")
    case True
    then show ?thesis by simp
  next
    case False
    with Cons.prems have ex: "\<exists>x \<in> set s. f x" by auto
    have "IndexFunc_from (i + 1) s f = (i + 1) + IndexFunc_from 0 s f"
      using Cons.IH [of "i + 1"] Cons.prems(1) ex by simp
    moreover have "IndexFunc_from (0 + 1) s f = (0 + 1) + IndexFunc_from 0 s f"
      using Cons.IH [of "0 + 1"] ex by simp
    ultimately show ?thesis using False by simp
  qed
qed

lemma slices_Contains_iff: "slices_Contains s v = (v \<in> set s)"
proof -
  have "(IndexFunc_from 0 s (\<lambda>x. x = v) = - 1) = (v \<notin> set s)"
    by (auto simp add: IndexFunc_from_none)
  moreover have "IndexFunc_from 0 s (\<lambda>x. x = v) = - 1 \<or> 0 \<le> IndexFunc_from 0 s (\<lambda>x. x = v)"
    using IndexFunc_from_range [of 0 s "\<lambda>x. x = v"] by auto
  ultimately show ?thesis
    unfolding slices_Contains_def slices_Index_def slices_IndexFunc_def by auto
qed

lemma pageCache_contains_iff: "pageCache_contains pc page = (page \<in> set (pages pc))"
  by (simp add: pageCache_contains_def slices_Contains_iff)

lemma IndexFunc_from_first:
  "\<exists>x \<in> set s. f x \<Longrightarrow>
     0 \<le> IndexFunc_from 0 s f \<and> nat (IndexFunc_from 0 s f) < length s
     \<and> f (s ! nat (IndexFunc_from 0 s f))
     \<and> (\<forall>j < nat (IndexFunc_from 0 s f). \<not> f (s ! j))"
proof (induction s)
  case Nil
  then show ?case by simp
next
  case (Cons a s)
  show ?case
  proof (cases "f a")
    case True
    then show ?thesis by simp
  next
    case False
    with Cons.prems have ex: "\<exists>x \<in> set s. f x" by auto
    have sh: "IndexFunc_from (0 + 1) s f = 0 + 1 + IndexFunc_from 0 s f"
      using IndexFunc_from_shift [of "0 + 1" s f] ex by simp
    from Cons.IH [OF ex] have ih: "0 \<le> IndexFunc_from 0 s f"
      "nat (IndexFunc_from 0 s f) < length s"
      "f (s ! nat (IndexFunc_from 0 s f))"
      "\<forall>j < nat (IndexFunc_from 0 s f). \<not> f (s ! j)" by auto
    have n: "nat (1 + IndexFunc_from 0 s f) = Suc (nat (IndexFunc_from 0 s f))"
      using ih(1) by simp
    show ?thesis using False sh ih n
      by (auto simp: less_Suc_eq_0_disj)
  qed
qed

lemma slices_IndexFunc_none:
  "(slices_IndexFunc s f = - 1) = (\<forall>x \<in> set s. \<not> f x)"
  by (simp add: slices_IndexFunc_def IndexFunc_from_none)

lemma slices_IndexFunc_first:
  "\<exists>x \<in> set s. f x \<Longrightarrow>
     0 \<le> slices_IndexFunc s f \<and> nat (slices_IndexFunc s f) < length s
     \<and> f (s ! nat (slices_IndexFunc s f))
     \<and> (\<forall>j < nat (slices_IndexFunc s f). \<not> f (s ! j))"
  unfolding slices_IndexFunc_def by (rule IndexFunc_from_first)

lemma slices_ContainsFunc_iff: "slices_ContainsFunc s f = (\<exists>x \<in> set s. f x)"
proof (cases "\<exists>x \<in> set s. f x")
  case True
  then show ?thesis
    using slices_IndexFunc_first [of s f] by (simp add: slices_ContainsFunc_def)
next
  case False
  then have "slices_IndexFunc s f = - 1" by (simp add: slices_IndexFunc_none)
  with False show ?thesis by (simp add: slices_ContainsFunc_def)
qed

lemma slices_Index_nth:
  "v \<in> set s \<Longrightarrow> 0 \<le> slices_Index s v \<and> nat (slices_Index s v) < length s
     \<and> s ! nat (slices_Index s v) = v"
  using slices_IndexFunc_first [of s "\<lambda>x. x = v"]
  by (auto simp: slices_Index_def)

section \<open>The resident-page set: size and distinctness\<close>

lemma pageCache_add_length:
  "int (length (pages pc)) \<le> cacheSize \<Longrightarrow>
   int (length (pages (snd (pageCache_add pc page)))) \<le> cacheSize"
  by (auto simp: pageCache_add_def cacheSize_def Let_def)

lemma pageCache_add_distinct:
  "distinct (pages pc) \<Longrightarrow> distinct (pages (snd (pageCache_add pc page)))"
  by (auto simp: pageCache_add_def cacheSize_def Let_def pageCache_contains_iff slices_copy_def)

lemma pageCache_add_subset:
  "set (pages (snd (pageCache_add pc page))) \<subseteq> insert page (set (pages pc))"
  by (auto simp: pageCache_add_def cacheSize_def Let_def pageCache_contains_iff slices_copy_def
      dest!: in_set_takeD in_set_dropD)

lemma pageCache_run_snoc:
  "pageCache_run (ops @ [x]) = pageCache_apply (pageCache_run ops) x"
  by (simp add: pageCache_run_def)

lemma pageCache_run_length: "int (length (pages (pageCache_run ops))) \<le> cacheSize"
proof (induction ops rule: rev_induct)
  case Nil
  show ?case by (simp add: pageCache_run_def pageCache_zero_def cacheSize_def)
next
  case (snoc x ops)
  then show ?case
    by (cases x) (simp_all add: pageCache_run_snoc pageCache_add_length)
qed

lemma pageCache_run_distinct: "distinct (pages (pageCache_run ops))"
proof (induction ops rule: rev_induct)
  case Nil
  show ?case by (simp add: pageCache_run_def pageCache_zero_def)
next
  case (snoc x ops)
  then show ?case
    by (cases x) (simp_all add: pageCache_run_snoc pageCache_add_distinct)
qed

lemmas pageCache_eval =
  pageCache_run_def pageCache_zero_def pageCache_add_def pageCache_contains_def
  slices_Contains_def slices_Index_def slices_IndexFunc_def slices_copy_def cacheSize_def

text \<open>
  Claim C4. Starting from the empty set, after any sequence of \<open>contains\<close> and \<open>add\<close>
  operations the resident-page set holds at most \<open>cacheSize = 5\<close> page numbers; and
  \<open>add\<close> on a set of at most five pages leaves at most five.
\<close>

theorem pageCache_size_bounded:
  "length (pages (pageCache_run ops)) \<le> 5
   \<and> (length (pages pc) \<le> 5 \<longrightarrow> length (pages (snd (pageCache_add pc page))) \<le> 5)"
  using pageCache_run_length [of ops] pageCache_add_length [of pc page]
  by (simp add: cacheSize_def)

theorem pageCache_size_bounded_witness:
  "length (pages (pageCache_run [OpAdd 0, OpAdd 1, OpAdd 2, OpContains 1, OpAdd 3, OpAdd 4,
      OpAdd 5, OpAdd 6])) \<le> 5
   \<and> pages (pageCache_run [OpAdd 0, OpAdd 1, OpAdd 2, OpContains 1, OpAdd 3, OpAdd 4,
      OpAdd 5, OpAdd 6]) = [2, 3, 4, 5, 6]
   \<and> length (pages \<lparr>pages = [2, 3, 4, 5, 6]\<rparr>) \<le> 5
   \<and> length (pages (snd (pageCache_add \<lparr>pages = [2, 3, 4, 5, 6]\<rparr> 7))) \<le> 5"
  using pageCache_size_bounded [of "[OpAdd 0, OpAdd 1, OpAdd 2, OpContains 1, OpAdd 3, OpAdd 4,
      OpAdd 5, OpAdd 6]" "\<lparr>pages = [2, 3, 4, 5, 6]\<rparr>" 7]
  by (simp add: pageCache_eval)

text \<open>
  Claim C10. The page numbers of the resident-page set are pairwise distinct after any
  sequence of operations from the empty set: \<open>add\<close> changes nothing when the page is
  present, and otherwise the page was not in the set, every page of the result is the
  new page or an old one, and distinct pages stay distinct.
\<close>

theorem pageCache_pages_distinct:
  "distinct (pages (pageCache_run ops))
   \<and> (pageCache_contains pc page \<longrightarrow> pageCache_add pc page = ((0, False), pc))
   \<and> (\<not> pageCache_contains pc page \<longrightarrow> page \<notin> set (pages pc))
   \<and> set (pages (snd (pageCache_add pc page))) \<subseteq> insert page (set (pages pc))
   \<and> (distinct (pages pc) \<longrightarrow> distinct (pages (snd (pageCache_add pc page))))"
proof -
  have "pageCache_contains pc page \<longrightarrow> pageCache_add pc page = ((0, False), pc)"
    by (simp add: pageCache_add_def)
  moreover have "\<not> pageCache_contains pc page \<longrightarrow> page \<notin> set (pages pc)"
    by (simp add: pageCache_contains_iff)
  ultimately show ?thesis
    using pageCache_run_distinct [of ops] pageCache_add_subset [of pc page]
      pageCache_add_distinct [of pc page]
    by blast
qed

theorem pageCache_pages_distinct_witness:
  "distinct (pages (pageCache_run [OpAdd 3, OpAdd 3, OpAdd 1, OpAdd 4, OpAdd 1, OpAdd 5,
      OpAdd 9, OpAdd 2, OpAdd 6]))
   \<and> pages (pageCache_run [OpAdd 3, OpAdd 3, OpAdd 1, OpAdd 4, OpAdd 1, OpAdd 5,
      OpAdd 9, OpAdd 2, OpAdd 6]) = [2, 3, 4, 5, 6]
   \<and> pageCache_contains \<lparr>pages = [3, 1, 4]\<rparr> 1
   \<and> pageCache_add \<lparr>pages = [3, 1, 4]\<rparr> 1 = ((0, False), \<lparr>pages = [3, 1, 4]\<rparr>)
   \<and> \<not> pageCache_contains \<lparr>pages = [3, 1, 4]\<rparr> 5
   \<and> distinct (pages (snd (pageCache_add \<lparr>pages = [3, 1, 4]\<rparr> 5)))"
  using pageCache_pages_distinct [of "[OpAdd 3, OpAdd 3, OpAdd 1, OpAdd 4, OpAdd 1, OpAdd 5,
      OpAdd 9, OpAdd 2, OpAdd 6]" "\<lparr>pages = [3, 1, 4]\<rparr>" 1]
    pageCache_pages_distinct [of "[]" "\<lparr>pages = [3, 1, 4]\<rparr>" 5]
  by (simp add: pageCache_eval)

section \<open>The resident-page set at capacity\<close>

text \<open>
  The upper half of the window: when the index \<open>i\<close> of the new page in the sorted
  six satisfies \<open>i \<ge> cacheSize - i - 1\<close>, the smallest page is returned and it is the
  page that leaves the set.
\<close>

lemma pageCache_add_upper_half:
  assumes len: "length (pages pc) = 5"
    and dist: "distinct (pages pc)"
    and new: "\<not> pageCache_contains pc page"
    and up: "slices_Index (sort (pages pc @ [page])) page
               \<ge> cacheSize - slices_Index (sort (pages pc @ [page])) page - 1"
  shows "pageCache_add pc page =
           ((hd (sort (pages pc @ [page])), True), pc\<lparr>pages := tl (sort (pages pc @ [page]))\<rparr>)
         \<and> hd (sort (pages pc @ [page])) \<notin> set (pages (snd (pageCache_add pc page)))
         \<and> (\<forall>x \<in> set (pages pc @ [page]). hd (sort (pages pc @ [page])) \<le> x)"
proof -
  define ps where "ps = sort (pages pc @ [page])"
  have lps: "length ps = 6" using len by (simp add: ps_def)
  have dps: "distinct ps" using dist new by (simp add: ps_def pageCache_contains_iff)
  have sps: "sorted ps" by (simp add: ps_def)
  have sets: "set ps = set (pages pc @ [page])" by (simp add: ps_def)
  obtain a b c d e g where six: "ps = [a, b, c, d, e, g]"
    using lps by (auto simp: eval_nat_numeral length_Suc_conv)
  have eq: "pageCache_add pc page = ((hd ps, True), pc\<lparr>pages := tl ps\<rparr>)"
    using len new up unfolding pageCache_add_def Let_def ps_def [symmetric]
    by (simp add: cacheSize_def slices_copy_def six)
  have out: "hd ps \<notin> set (tl ps)" using dps by (auto simp: six)
  have least: "\<forall>x \<in> set ps. hd ps \<le> x" using sps by (auto simp: six)
  show ?thesis
    using eq out least unfolding sets [symmetric] ps_def [symmetric] by simp
qed

text \<open>
  Claim C1, the lower half of the window. When \<open>i < cacheSize - i - 1\<close> the function
  returns the element at index \<open>cacheSize - 1\<close> of the sorted six, which is the second
  largest page and stays in the set; the page that the reslice drops is the last of
  the sorted six, the largest, which was resident before and is not returned.
\<close>

theorem pageCache_add_lower_half:
  assumes len: "length (pages pc) = 5"
    and dist: "distinct (pages pc)"
    and new: "\<not> pageCache_contains pc page"
    and low: "slices_Index (sort (pages pc @ [page])) page
                < cacheSize - slices_Index (sort (pages pc @ [page])) page - 1"
  shows "pageCache_add pc page =
           ((sort (pages pc @ [page]) ! 4, True), pc\<lparr>pages := take 5 (sort (pages pc @ [page]))\<rparr>)
         \<and> sort (pages pc @ [page]) ! 4 \<in> set (pages (snd (pageCache_add pc page)))
         \<and> last (sort (pages pc @ [page])) \<notin> set (pages (snd (pageCache_add pc page)))
         \<and> last (sort (pages pc @ [page])) \<in> set (pages pc)
         \<and> sort (pages pc @ [page]) ! 4 < last (sort (pages pc @ [page]))"
proof -
  define ps where "ps = sort (pages pc @ [page])"
  have lps: "length ps = 6" using len by (simp add: ps_def)
  have dps: "distinct ps" using dist new by (simp add: ps_def pageCache_contains_iff)
  have sps: "sorted ps" by (simp add: ps_def)
  have eq: "pageCache_add pc page = ((ps ! 4, True), pc\<lparr>pages := take 5 ps\<rparr>)"
    using len new low by (simp add: pageCache_add_def Let_def cacheSize_def ps_def)
  obtain a b c d e g where six: "ps = [a, b, c, d, e, g]"
    using lps by (auto simp: eval_nat_numeral length_Suc_conv)
  have in4: "ps ! 4 \<in> set (take 5 ps)" by (simp add: six)
  have l5: "last ps = ps ! 5" by (simp add: six)
  have out5: "ps ! 5 \<notin> set (take 5 ps)" using dps by (auto simp: six)
  have pin: "page \<in> set ps" by (simp add: ps_def)
  note ix = slices_Index_nth [OF pin]
  have ilt: "nat (slices_Index ps page) < 2"
    using low ix by (simp add: cacheSize_def ps_def)
  have "ps ! 5 \<noteq> ps ! nat (slices_Index ps page)"
    using dps lps ilt by (simp add: nth_eq_iff_index_eq)
  then have ne: "ps ! 5 \<noteq> page" using ix by simp
  have "ps ! 5 \<in> set ps" using lps by simp
  then have old: "ps ! 5 \<in> set (pages pc)" using ne by (auto simp: ps_def)
  have "ps ! 4 \<le> ps ! 5" using sps lps by (simp add: sorted_nth_mono)
  moreover have "ps ! 4 \<noteq> ps ! 5" using dps lps by (simp add: nth_eq_iff_index_eq)
  ultimately have lt: "ps ! 4 < ps ! 5" by simp
  show ?thesis
    using eq in4 out5 old lt l5 unfolding ps_def [symmetric] by simp
qed

theorem pageCache_add_lower_half_witness:
  "length (pages \<lparr>pages = [10, 20, 30, 40, 50]\<rparr>) = 5
   \<and> distinct (pages \<lparr>pages = [10, 20, 30, 40, 50]\<rparr>)
   \<and> \<not> pageCache_contains \<lparr>pages = [10, 20, 30, 40, 50]\<rparr> 5
   \<and> slices_Index (sort [10, 20, 30, 40, 50, 5]) (5 :: int) = 0
   \<and> pageCache_add \<lparr>pages = [10, 20, 30, 40, 50]\<rparr> 5
       = ((40, True), \<lparr>pages = [5, 10, 20, 30, 40]\<rparr>)
   \<and> 40 \<in> set (pages (snd (pageCache_add \<lparr>pages = [10, 20, 30, 40, 50]\<rparr> 5)))
   \<and> 50 \<notin> set (pages (snd (pageCache_add \<lparr>pages = [10, 20, 30, 40, 50]\<rparr> 5)))"
  using pageCache_add_lower_half [of "\<lparr>pages = [10, 20, 30, 40, 50]\<rparr>" 5]
  by (simp add: pageCache_eval)

section \<open>The in-flight tracker\<close>

lemma loader_isActive_iff:
  "loader_isActive l page = (\<exists>e \<in> set (loading l). p_page e = page)"
  by (simp add: loader_isActive_def slices_ContainsFunc_iff)

lemma loader_track_new:
  assumes "\<not> loader_isActive l (req_page req)"
  shows "loader_track l req =
           (True, l\<lparr>loading := loading l @
              [\<lparr>p_page = req_page req, reply = appendNotNil [] (req_done req)\<rparr>]\<rparr>)"
proof -
  have "slices_IndexFunc (loading l) (\<lambda>this. p_page this = req_page req) = - 1"
    using assms by (simp add: loader_isActive_iff slices_IndexFunc_none)
  then show ?thesis by (simp add: loader_track_def)
qed

lemma loader_track_old:
  assumes "loader_isActive l (req_page req)"
  shows "\<exists>i < length (loading l). p_page (loading l ! i) = req_page req
           \<and> (\<forall>j < i. p_page (loading l ! j) \<noteq> req_page req)
           \<and> loader_track l req =
               (False, l\<lparr>loading := (loading l)[i :=
                  (loading l ! i)\<lparr>reply := appendNotNil (reply (loading l ! i)) (req_done req)\<rparr>]\<rparr>)"
proof -
  define i where "i = slices_IndexFunc (loading l) (\<lambda>this. p_page this = req_page req)"
  have ex: "\<exists>e \<in> set (loading l). p_page e = req_page req"
    using assms by (simp add: loader_isActive_iff)
  from slices_IndexFunc_first [OF ex]
  have f: "0 \<le> i" "nat i < length (loading l)" "p_page (loading l ! nat i) = req_page req"
    "\<forall>j < nat i. p_page (loading l ! j) \<noteq> req_page req"
    by (auto simp: i_def)
  have "loader_track l req =
      (False, l\<lparr>loading := (loading l)[nat i :=
         (loading l ! nat i)\<lparr>reply := appendNotNil (reply (loading l ! nat i)) (req_done req)\<rparr>]\<rparr>)"
    using f(1) by (simp add: loader_track_def i_def [symmetric])
  with f show ?thesis by blast
qed

lemma loader_track_pages:
  "map p_page (loading (snd (loader_track l req))) =
     (if loader_isActive l (req_page req) then map p_page (loading l)
      else map p_page (loading l) @ [req_page req])"
proof (cases "loader_isActive l (req_page req)")
  case True
  from loader_track_old [OF True] obtain i where
    i: "i < length (loading l)" "p_page (loading l ! i) = req_page req"
    and eq: "loader_track l req =
               (False, l\<lparr>loading := (loading l)[i :=
                  (loading l ! i)\<lparr>reply := appendNotNil (reply (loading l ! i)) (req_done req)\<rparr>]\<rparr>)"
    by blast
  show ?thesis using True i by (simp add: eq map_update list_update_same_conv)
next
  case False
  then show ?thesis by (simp add: loader_track_new)
qed

lemma loader_track_distinct:
  "distinct (map p_page (loading l)) \<Longrightarrow>
   distinct (map p_page (loading (snd (loader_track l req))))"
  by (auto simp: loader_track_pages loader_isActive_iff)

text \<open>Overwriting position \<open>i\<close> with the last element and dropping the last element
  removes exactly the element at \<open>i\<close>, when the keys are distinct.\<close>

lemma swap_remove:
  assumes i: "i < length xs" and d: "distinct (map f xs)"
  shows "distinct (map f (take (length xs - 1) (xs[i := xs ! (length xs - 1)])))"
    and "set (take (length xs - 1) (xs[i := xs ! (length xs - 1)])) = set xs - {xs ! i}"
    and "f (xs ! i) \<notin> f ` set (take (length xs - 1) (xs[i := xs ! (length xs - 1)]))"
proof -
  from i have ne: "xs \<noteq> []" by auto
  define bs z where "bs = butlast xs" and "z = last xs"
  have xs: "xs = bs @ [z]" using ne by (simp add: bs_def z_def)
  have lz: "xs ! (length xs - 1) = z" by (simp add: xs)
  have dx: "distinct xs" using d by (simp add: distinct_map)
  let ?ys = "take (length xs - 1) (xs[i := xs ! (length xs - 1)])"
  show "distinct (map f ?ys)"
    and "set ?ys = set xs - {xs ! i}"
    and "f (xs ! i) \<notin> f ` set ?ys"
  proof (atomize (full), cases "i = length bs")
    case True
    have ys: "?ys = bs" unfolding lz using True by (simp add: xs)
    have xi: "xs ! i = z" using True by (simp add: xs)
    show "distinct (map f ?ys) \<and> set ?ys = set xs - {xs ! i} \<and> f (xs ! i) \<notin> f ` set ?ys"
      unfolding ys xi using d dx by (auto simp: xs)
  next
    case False
    with i have ib: "i < length bs" by (simp add: xs)
    have ys: "?ys = bs[i := z]" unfolding lz using ib by (simp add: xs list_update_append)
    have xi: "xs ! i = bs ! i" using ib by (simp add: xs nth_append)
    have bsplit: "bs = take i bs @ bs ! i # drop (Suc i) bs"
      using ib by (simp add: id_take_nth_drop [symmetric])
    have usplit: "bs[i := z] = take i bs @ z # drop (Suc i) bs"
      using ib by (simp add: upd_conv_take_nth_drop)
    have d': "distinct (map f (take i bs @ bs ! i # drop (Suc i) bs @ [z]))"
      using d bsplit by (metis xs append.assoc append_Cons)
    show "distinct (map f ?ys) \<and> set ?ys = set xs - {xs ! i} \<and> f (xs ! i) \<notin> f ` set ?ys"
    proof (intro conjI)
      show "distinct (map f ?ys)" unfolding ys usplit using d' by auto
      have "set xs = set (take i bs @ bs ! i # drop (Suc i) bs @ [z])"
        using bsplit by (metis xs append.assoc append_Cons)
      moreover have "distinct (take i bs @ bs ! i # drop (Suc i) bs @ [z])"
        using d' by (simp only: distinct_map)
      ultimately show "set ?ys = set xs - {xs ! i}"
        unfolding ys xi usplit by auto
      show "f (xs ! i) \<notin> f ` set ?ys" unfolding ys xi usplit using d' by auto
    qed
  qed
qed

lemma loader_done_absent:
  assumes "\<not> loader_isActive l page"
  shows "loader_done l page = ([], l)"
proof -
  have "slices_IndexFunc (loading l) (\<lambda>this. p_page this = page) = - 1"
    using assms by (simp add: loader_isActive_iff slices_IndexFunc_none)
  then show ?thesis by (simp add: loader_done_def)
qed

lemma loader_done_present:
  assumes act: "loader_isActive l page" and d: "distinct (map p_page (loading l))"
  shows "\<exists>e \<in> set (loading l). p_page e = page
           \<and> fst (loader_done l page) = map (\<lambda>c. (c, page)) (reply e)
           \<and> set (loading (snd (loader_done l page))) = set (loading l) - {e}
           \<and> distinct (map p_page (loading (snd (loader_done l page))))
           \<and> \<not> loader_isActive (snd (loader_done l page)) page"
proof -
  define i where "i = slices_IndexFunc (loading l) (\<lambda>this. p_page this = page)"
  have ex: "\<exists>e \<in> set (loading l). p_page e = page"
    using act by (simp add: loader_isActive_iff)
  from slices_IndexFunc_first [OF ex]
  have f: "0 \<le> i" "nat i < length (loading l)" "p_page (loading l ! nat i) = page"
    by (auto simp: i_def)
  let ?ys = "take (length (loading l) - 1)
               ((loading l)[nat i := loading l ! (length (loading l) - 1)])"
  have eq: "loader_done l page =
      (map (\<lambda>c. (c, page)) (reply (loading l ! nat i)), l\<lparr>loading := ?ys\<rparr>)"
    using f(1) by (simp add: loader_done_def i_def [symmetric])
  note sr = swap_remove [OF f(2) d]
  have "loading l ! nat i \<in> set (loading l)" using f(2) by simp
  moreover have "\<not> loader_isActive (snd (loader_done l page)) page"
  proof
    assume "loader_isActive (snd (loader_done l page)) page"
    then obtain e where "e \<in> set ?ys" "p_page e = page"
      by (auto simp: eq loader_isActive_iff)
    then have "page \<in> p_page ` set ?ys" by blast
    with sr(3) f(3) show False by simp
  qed
  ultimately show ?thesis using f(3) sr(1,2) by (auto simp: eq)
qed

lemma loader_done_distinct:
  "distinct (map p_page (loading l)) \<Longrightarrow>
   distinct (map p_page (loading (snd (loader_done l page))))"
  using loader_done_present [of l page] loader_done_absent [of l page]
  by (cases "loader_isActive l page") auto

lemma loader_run_snoc: "loader_run (ops @ [x]) = loader_apply (loader_run ops) x"
  by (simp add: loader_run_def)

lemma loader_run_distinct: "distinct (map p_page (loading (loader_run ops)))"
proof (induction ops rule: rev_induct)
  case Nil
  show ?case by (simp add: loader_run_def loader_zero_def)
next
  case (snoc x ops)
  then show ?case
    by (cases x) (simp_all add: loader_run_snoc loader_track_distinct loader_done_distinct)
qed

lemmas loader_eval =
  loader_run_def loader_zero_def loader_isActive_def loader_track_def loader_done_def
  appendNotNil_def slices_ContainsFunc_def slices_IndexFunc_def

text \<open>
  Claim C5. \<open>track\<close> returns true exactly when no entry for the request's page exists,
  and then appends a new entry whose waiter list holds the request's channel if it has
  one and is empty otherwise; when an entry exists, the channel (if any) is appended to
  the waiter list of that entry, the first and only one for the page, and the result is
  false. Entries keep distinct page numbers, so a tracker run from the zero value by
  \<open>track\<close> and \<open>done\<close> never holds two entries for one page.
\<close>

theorem loader_track_spec:
  "(\<not> loader_isActive l (req_page req) \<longrightarrow>
      loader_track l req =
        (True, l\<lparr>loading := loading l @
           [\<lparr>p_page = req_page req,
             reply = (case req_done req of None \<Rightarrow> [] | Some ch \<Rightarrow> [ch])\<rparr>]\<rparr>))
   \<and> (loader_isActive l (req_page req) \<longrightarrow>
        (\<exists>i < length (loading l). p_page (loading l ! i) = req_page req
           \<and> (\<forall>j < i. p_page (loading l ! j) \<noteq> req_page req)
           \<and> loader_track l req =
               (False, l\<lparr>loading := (loading l)[i :=
                  (loading l ! i)\<lparr>reply := reply (loading l ! i) @
                     (case req_done req of None \<Rightarrow> [] | Some ch \<Rightarrow> [ch])\<rparr>]\<rparr>)))
   \<and> fst (loader_track l req) = (\<not> loader_isActive l (req_page req))
   \<and> (distinct (map p_page (loading l)) \<longrightarrow>
        distinct (map p_page (loading (snd (loader_track l req)))))
   \<and> distinct (map p_page (loading (loader_run ops)))"
proof -
  have app: "appendNotNil s c = s @ (case c of None \<Rightarrow> [] | Some ch \<Rightarrow> [ch])" for s c
    by (simp add: appendNotNil_def split: option.splits)
  have new: "\<not> loader_isActive l (req_page req) \<longrightarrow>
      loader_track l req =
        (True, l\<lparr>loading := loading l @
           [\<lparr>p_page = req_page req,
             reply = (case req_done req of None \<Rightarrow> [] | Some ch \<Rightarrow> [ch])\<rparr>]\<rparr>)"
    using loader_track_new [of l req] by (simp add: app)
  have old: "loader_isActive l (req_page req) \<longrightarrow>
        (\<exists>i < length (loading l). p_page (loading l ! i) = req_page req
           \<and> (\<forall>j < i. p_page (loading l ! j) \<noteq> req_page req)
           \<and> loader_track l req =
               (False, l\<lparr>loading := (loading l)[i :=
                  (loading l ! i)\<lparr>reply := reply (loading l ! i) @
                     (case req_done req of None \<Rightarrow> [] | Some ch \<Rightarrow> [ch])\<rparr>]\<rparr>))"
    using loader_track_old [of l req] by (simp add: app)
  have res: "fst (loader_track l req) = (\<not> loader_isActive l (req_page req))"
    using new old by (cases "loader_isActive l (req_page req)") auto
  show ?thesis
    using new old res loader_track_distinct [of l req] loader_run_distinct [of ops]
    by blast
qed

theorem loader_track_spec_witness:
  "\<not> loader_isActive \<lparr>loading = [\<lparr>p_page = 3, reply = [7]\<rparr>]\<rparr> 4
   \<and> loader_track \<lparr>loading = [\<lparr>p_page = 3, reply = [7]\<rparr>]\<rparr> \<lparr>req_page = 4, req_done = None\<rparr>
       = (True, \<lparr>loading = [\<lparr>p_page = 3, reply = [7]\<rparr>, \<lparr>p_page = 4, reply = []\<rparr>]\<rparr>)
   \<and> loader_isActive \<lparr>loading = [\<lparr>p_page = 3, reply = [7]\<rparr>]\<rparr> 3
   \<and> loader_track \<lparr>loading = [\<lparr>p_page = 3, reply = [7]\<rparr>]\<rparr> \<lparr>req_page = 3, req_done = Some 8\<rparr>
       = (False, \<lparr>loading = [\<lparr>p_page = 3, reply = [7, 8]\<rparr>]\<rparr>)
   \<and> distinct (map p_page (loading \<lparr>loading = [\<lparr>p_page = 3, reply = [7]\<rparr>]\<rparr>))
   \<and> distinct (map p_page (loading (loader_run
        [OpTrack \<lparr>req_page = 3, req_done = Some 7\<rparr>, OpTrack \<lparr>req_page = 4, req_done = None\<rparr>,
         OpTrack \<lparr>req_page = 3, req_done = Some 8\<rparr>, OpDone 3,
         OpTrack \<lparr>req_page = 3, req_done = None\<rparr>])))
   \<and> loader_run
        [OpTrack \<lparr>req_page = 3, req_done = Some 7\<rparr>, OpTrack \<lparr>req_page = 4, req_done = None\<rparr>,
         OpTrack \<lparr>req_page = 3, req_done = Some 8\<rparr>, OpDone 3,
         OpTrack \<lparr>req_page = 3, req_done = None\<rparr>]
       = \<lparr>loading = [\<lparr>p_page = 4, reply = []\<rparr>, \<lparr>p_page = 3, reply = []\<rparr>]\<rparr>"
  using loader_track_spec [of "\<lparr>loading = [\<lparr>p_page = 3, reply = [7]\<rparr>]\<rparr>"
      "\<lparr>req_page = 4, req_done = None\<rparr>"
      "[OpTrack \<lparr>req_page = 3, req_done = Some 7\<rparr>, OpTrack \<lparr>req_page = 4, req_done = None\<rparr>,
         OpTrack \<lparr>req_page = 3, req_done = Some 8\<rparr>, OpDone 3,
         OpTrack \<lparr>req_page = 3, req_done = None\<rparr>]"]
    loader_track_spec [of "\<lparr>loading = [\<lparr>p_page = 3, reply = [7]\<rparr>]\<rparr>"
      "\<lparr>req_page = 3, req_done = Some 8\<rparr>" "[]"]
  by (simp add: loader_eval)

text \<open>
  Claim C7. In a tracker run from the zero value that holds an entry for \<open>page\<close>,
  \<open>done\<close> sends \<open>page\<close> once on each channel of that entry's waiter list, in the order
  of the list, and removes that entry and no other; afterwards \<open>isActive page\<close> is
  false.
\<close>

theorem loader_done_notifies:
  assumes "loader_isActive (loader_run ops) page"
  shows "\<exists>e. e \<in> set (loading (loader_run ops)) \<and> p_page e = page
           \<and> fst (loader_done (loader_run ops) page) = map (\<lambda>c. (c, page)) (reply e)
           \<and> map fst (fst (loader_done (loader_run ops) page)) = reply e
           \<and> set (loading (snd (loader_done (loader_run ops) page)))
               = set (loading (loader_run ops)) - {e}
           \<and> \<not> loader_isActive (snd (loader_done (loader_run ops) page)) page"
proof -
  from loader_done_present [OF assms loader_run_distinct]
  obtain e where e: "e \<in> set (loading (loader_run ops))" "p_page e = page"
    "fst (loader_done (loader_run ops) page) = map (\<lambda>c. (c, page)) (reply e)"
    "set (loading (snd (loader_done (loader_run ops) page)))
       = set (loading (loader_run ops)) - {e}"
    "\<not> loader_isActive (snd (loader_done (loader_run ops) page)) page"
    by blast
  have "map fst (map (\<lambda>c. (c, page)) (reply e)) = reply e"
    by (simp add: comp_def)
  with e show ?thesis by metis
qed

theorem loader_done_notifies_witness:
  "loader_isActive (loader_run
      [OpTrack \<lparr>req_page = 3, req_done = Some 7\<rparr>, OpTrack \<lparr>req_page = 4, req_done = None\<rparr>,
       OpTrack \<lparr>req_page = 3, req_done = Some 8\<rparr>]) 3
   \<and> loader_done (loader_run
      [OpTrack \<lparr>req_page = 3, req_done = Some 7\<rparr>, OpTrack \<lparr>req_page = 4, req_done = None\<rparr>,
       OpTrack \<lparr>req_page = 3, req_done = Some 8\<rparr>]) 3
       = ([(7, 3), (8, 3)], \<lparr>loading = [\<lparr>p_page = 4, reply = []\<rparr>]\<rparr>)
   \<and> (\<exists>e. e \<in> set (loading (loader_run
      [OpTrack \<lparr>req_page = 3, req_done = Some 7\<rparr>, OpTrack \<lparr>req_page = 4, req_done = None\<rparr>,
       OpTrack \<lparr>req_page = 3, req_done = Some 8\<rparr>])) \<and> p_page e = 3
         \<and> [(7, 3), (8, 3)] = map (\<lambda>c. (c, 3)) (reply e))"
proof -
  let ?ops = "[OpTrack \<lparr>req_page = 3, req_done = Some 7\<rparr>,
       OpTrack \<lparr>req_page = 4, req_done = None\<rparr>,
       OpTrack \<lparr>req_page = 3, req_done = Some 8\<rparr>]"
  have act: "loader_isActive (loader_run ?ops) 3" by (simp add: loader_eval)
  have val: "loader_done (loader_run ?ops) 3
       = ([(7, 3), (8, 3)], \<lparr>loading = [\<lparr>p_page = 4, reply = []\<rparr>]\<rparr>)"
    by (simp add: loader_eval)
  from loader_done_notifies [OF act] obtain e where
    "e \<in> set (loading (loader_run ?ops))" "p_page e = 3"
    "fst (loader_done (loader_run ?ops) 3) = map (\<lambda>c. (c, 3)) (reply e)"
    by blast
  then have "\<exists>e. e \<in> set (loading (loader_run ?ops)) \<and> p_page e = 3
         \<and> [(7, 3), (8, 3)] = map (\<lambda>c. (c, 3)) (reply e)"
    unfolding val by auto
  with act val show ?thesis by blast
qed

section \<open>The coordinator\<close>

lemmas coordinator_eval =
  coordinator_step_def coordinator_zero_def pageCache_eval loader_eval

text \<open>
  Claim C3, as stated, at a concrete tracker: \<open>done\<close> for a page with no entry returns
  normally, sends nothing and leaves the tracker as it was.
\<close>

theorem loader_done_untracked_counterexample:
  "\<not> loader_isActive \<lparr>loading = [\<lparr>p_page = 3, reply = [7]\<rparr>]\<rparr> 4
   \<and> loader_done \<lparr>loading = [\<lparr>p_page = 3, reply = [7]\<rparr>]\<rparr> 4
       = ([], \<lparr>loading = [\<lparr>p_page = 3, reply = [7]\<rparr>]\<rparr>)"
  by (simp add: loader_eval)

text \<open>
  Claim C3, amended. \<open>done\<close> for a page with no entry is a no-op: no send, tracker
  unchanged. The fail-fast check is the coordinator's: when a ready page has no entry
  in its tracker, the coordinator panics, before \<open>add\<close> and \<open>done\<close> are called.
\<close>

theorem coordinator_ready_untracked_panics:
  assumes "\<not> loader_isActive (inflight st) page"
  shows "loader_done (inflight st) page = ([], inflight st)
         \<and> coordinator_step st (Ready page) = Panicked (NotInProgress page)"
  using assms loader_done_absent [of "inflight st" page]
  by (simp add: coordinator_step_def)

theorem coordinator_ready_untracked_panics_witness:
  "\<not> loader_isActive (inflight \<lparr>cache = \<lparr>pages = [3]\<rparr>,
        inflight = \<lparr>loading = [\<lparr>p_page = 5, reply = [7]\<rparr>]\<rparr>\<rparr>) 4
   \<and> loader_done \<lparr>loading = [\<lparr>p_page = 5, reply = [7]\<rparr>]\<rparr> 4
       = ([], \<lparr>loading = [\<lparr>p_page = 5, reply = [7]\<rparr>]\<rparr>)
   \<and> coordinator_step \<lparr>cache = \<lparr>pages = [3]\<rparr>,
        inflight = \<lparr>loading = [\<lparr>p_page = 5, reply = [7]\<rparr>]\<rparr>\<rparr> (Ready 4)
       = Panicked (NotInProgress 4)"
proof -
  let ?st = "\<lparr>cache = \<lparr>pages = [3]\<rparr>, inflight = \<lparr>loading = [\<lparr>p_page = 5, reply = [7]\<rparr>]\<rparr>\<rparr>"
  have h: "\<not> loader_isActive (inflight ?st) 4" by (simp add: loader_eval)
  from coordinator_ready_untracked_panics [OF h] h show ?thesis by simp
qed

section \<open>The facade\<close>

lemmas facade_eval =
  At_def fetchPageNow_def pageInRange_def numPages_def intCeil_def Free_def
  stopPreFetcher_def mapPageItems_def signed_divide_int_def signed_modulo_int_def

text \<open>An index at or beyond the length: \<open>At\<close> returns \<open>(zero, false)\<close> and performs no
  action at all, so nothing reaches the coordinator.\<close>

lemma At_beyond_end:
  "int (length (items c)) \<le> pos \<Longrightarrow> At c fresh pos = ([], Inr None)"
  by (simp add: At_def)

text \<open>
  Claim C2, for a negative index. \<open>At\<close> tests only \<open>pos >= len(c.items)\<close>, so a negative
  index passes the test: the requests for the pages around \<open>pos / pageSize\<close> are sent
  and the call ends in a fault, never in \<open>(zero, false)\<close>.
\<close>

theorem At_negative_index_faults:
  assumes "pos < 0"
  shows "(\<exists>f. snd (At c fresh pos) = Inl f) \<and> snd (At c fresh pos) \<noteq> Inr None"
  using assms
  by (auto simp: At_def Let_def split: prod.splits option.splits)

theorem At_negative_index_faults_witness:
  "(- 1 :: int) < 0
   \<and> At \<lparr>name = ''icons'', items = [10, 11, 12, 13 :: nat], pageSize = 2, fetchC = Some 0\<rparr> 9 (- 1)
       = ([SendRequest 0 \<lparr>req_page = 1, req_done = None\<rparr>,
           SendRequest 0 \<lparr>req_page = 0, req_done = Some 9\<rparr>, Receive 9],
          Inl IndexOutOfRange)
   \<and> fst (coordinator_run coordinator_zero
        [Request \<lparr>req_page = 1, req_done = None\<rparr>, Request \<lparr>req_page = 0, req_done = Some 9\<rparr>])
       = [GoLoadPage 1, GoLoadPage 0]
   \<and> mapPageItems \<lparr>name = ''icons'', items = [10, 11, 12, 13 :: nat], pageSize = 2,
        fetchC = Some 0\<rparr> 1 = Inr [2, 3]"
proof -
  let ?c = "\<lparr>name = ''icons'', items = [10, 11, 12, 13 :: nat], pageSize = 2, fetchC = Some 0\<rparr>"
  have val: "At ?c 9 (- 1)
       = ([SendRequest 0 \<lparr>req_page = 1, req_done = None\<rparr>,
           SendRequest 0 \<lparr>req_page = 0, req_done = Some 9\<rparr>, Receive 9],
          Inl IndexOutOfRange)"
    by (simp add: facade_eval)
  have run: "fst (coordinator_run coordinator_zero
        [Request \<lparr>req_page = 1, req_done = None\<rparr>, Request \<lparr>req_page = 0, req_done = Some 9\<rparr>])
       = [GoLoadPage 1, GoLoadPage 0]"
    by (simp add: coordinator_eval)
  have items: "mapPageItems ?c 1 = Inr [2, 3]"
    by (simp add: facade_eval upto.simps)
  from At_negative_index_faults [of "- 1" ?c 9] val run items show ?thesis by simp
qed

lemma count_list_GoUnload:
  "count_list (map GoUnload [0..<n]) (GoUnload j) = (if j < n then 1 else 0)"
  by (induction n) auto

text \<open>
  Claim C8. \<open>Free\<close> on a cache whose coordinator is running closes the request channel,
  on which the coordinator returns from its loop whatever its state, and then starts
  one unloading goroutine for each position of the backing collection, each position
  exactly once, without consulting the resident set.
\<close>

theorem Free_unloads_every_item:
  assumes "fetchC c = Some ch"
  shows "Free c = (Close ch # map GoUnload [0..<length (items c)], c\<lparr>fetchC := None\<rparr>)
         \<and> (\<forall>st ms. coordinator_step st Closed = Returned
               \<and> coordinator_run st (Closed # ms) = ([], Returned))
         \<and> (\<forall>j. count_list (fst (Free c)) (GoUnload j) = (if j < length (items c) then 1 else 0))"
  using assms
  by (simp add: Free_def stopPreFetcher_def coordinator_step_def count_list_GoUnload)

theorem Free_unloads_every_item_witness:
  "fetchC \<lparr>name = ''icons'', items = [10, 11, 12 :: nat], pageSize = 2, fetchC = Some 0\<rparr> = Some 0
   \<and> Free \<lparr>name = ''icons'', items = [10, 11, 12 :: nat], pageSize = 2, fetchC = Some 0\<rparr>
       = ([Close 0, GoUnload 0, GoUnload 1, GoUnload 2],
          \<lparr>name = ''icons'', items = [10, 11, 12 :: nat], pageSize = 2, fetchC = None\<rparr>)
   \<and> coordinator_step \<lparr>cache = \<lparr>pages = [0]\<rparr>, inflight = loader_zero\<rparr> Closed = Returned
   \<and> count_list (fst (Free \<lparr>name = ''icons'', items = [10, 11, 12 :: nat], pageSize = 2,
        fetchC = Some 0\<rparr>)) (GoUnload 2) = 1"
proof -
  let ?c = "\<lparr>name = ''icons'', items = [10, 11, 12 :: nat], pageSize = 2, fetchC = Some 0\<rparr>"
  have h: "fetchC ?c = Some 0" by simp
  have up: "[0..<3] = [0, 1, 2]" by (simp add: upt_rec)
  from Free_unloads_every_item [OF h] have
    a: "Free ?c = (Close 0 # map GoUnload [0..<length (items ?c)], ?c\<lparr>fetchC := None\<rparr>)"
    and b: "coordinator_step \<lparr>cache = \<lparr>pages = [0]\<rparr>, inflight = loader_zero\<rparr> Closed = Returned"
    and c: "count_list (fst (Free ?c)) (GoUnload 2) = (if 2 < length (items ?c) then 1 else 0)"
    by blast+
  from a have a': "Free ?c = ([Close 0, GoUnload 0, GoUnload 1, GoUnload 2],
      \<lparr>name = ''icons'', items = [10, 11, 12 :: nat], pageSize = 2, fetchC = None\<rparr>)"
    by (simp add: up)
  from c have c': "count_list (fst (Free ?c)) (GoUnload 2) = 1" by simp
  from h a' b c' show ?thesis by blast
qed

section \<open>The range iterator\<close>

declare Get.simps [simp del]

lemma Get_stop: "\<not> frm < til \<Longrightarrow> Get at frm til yield s y = (None, frm, s, y, [])"
  by (subst Get.simps) simp

lemma Get_At_fault:
  "frm < til \<Longrightarrow> at frm s = (Inl f, s') \<Longrightarrow>
   Get at frm til yield s y = (Some f, frm, s', y, [CallAt frm])"
  by (subst Get.simps) simp

lemma Get_not_found:
  "frm < til \<Longrightarrow> at frm s = (Inr None, s') \<Longrightarrow>
   Get at frm til yield s y = (None, frm, s', y, [CallAt frm])"
  by (subst Get.simps) simp

lemma Get_consumer_stops:
  "frm < til \<Longrightarrow> at frm s = (Inr (Some i), s') \<Longrightarrow> yield i y = (False, y') \<Longrightarrow>
   Get at frm til yield s y = (None, frm, s', y', [CallAt frm, Yield i])"
  by (subst Get.simps) simp

lemma Get_continues:
  "frm < til \<Longrightarrow> at frm s = (Inr (Some i), s') \<Longrightarrow> yield i y = (True, y') \<Longrightarrow>
   Get at frm til yield s y =
     (case Get at (frm + 1) til yield s' y' of
        (r, frm', s'', y'', es) \<Rightarrow> (r, frm', s'', y'', CallAt frm # Yield i # es))"
  by (subst Get.simps) simp

lemma upto_step: "frm < til \<Longrightarrow> [frm..til - 1] = frm # [frm + 1..til - 1]"
  by (simp add: upto_rec1)

lemma upto_none: "\<not> frm < til \<Longrightarrow> [frm..til - 1] = []"
  by simp

lemma Get_refines_spec:
  "(case Get at frm til yield s y of (r, frm', s', y', es) \<Rightarrow> (r, s', y', es))
     = Get_spec at [frm..til - 1] yield s y"
proof (induction at frm til yield s y rule: Get.induct)
  case (1 at frm til yield s y)
  show ?case
  proof (cases "frm < til")
    case False
    then show ?thesis by (simp add: upto_none Get_stop)
  next
    case True
    note lt = True
    obtain r s' where a: "at frm s = (r, s')" by (cases "at frm s")
    show ?thesis
    proof (cases r)
      case (Inl f)
      with lt a show ?thesis by (simp add: upto_step Get_At_fault)
    next
      case (Inr found)
      show ?thesis
      proof (cases found)
        case None
        with lt a Inr show ?thesis by (simp add: upto_step Get_not_found)
      next
        case (Some i)
        obtain more y' where yl: "yield i y = (more, y')" by (cases "yield i y")
        show ?thesis
        proof (cases more)
          case False
          with lt a Inr Some yl show ?thesis by (simp add: upto_step Get_consumer_stops)
        next
          case True
          then have mt: "more = True" by simp
          have ih: "(case Get at (frm + 1) til yield s' y' of
                       (r, frm', s', y', es) \<Rightarrow> (r, s', y', es))
                    = Get_spec at [frm + 1..til - 1] yield s' y'"
            using "1.IH" [OF lt a [symmetric] Inr Some yl [symmetric] mt] .
          obtain r2 f2 s2 y2 es2 where
            g: "Get at (frm + 1) til yield s' y' = (r2, f2, s2, y2, es2)"
            by (cases "Get at (frm + 1) til yield s' y'") auto
          have sp: "Get_spec at [frm + 1..til - 1] yield s' y' = (r2, s2, y2, es2)"
            using ih by (simp add: g)
          have "Get at frm til yield s y = (r2, f2, s2, y2, CallAt frm # Yield i # es2)"
            using lt a Inr Some yl mt by (simp add: Get_continues g)
          then show ?thesis
            using lt a Inr Some yl mt sp by (simp add: upto_step)
        qed
      qed
    qed
  qed
qed

text \<open>The calls of \<open>At\<close> in a run over a list of indices are on an initial segment of
  the list, in order; the items yielded are at most as many as the calls.\<close>

lemma Get_spec_calls_prefix:
  "prefix (calls (snd (snd (snd (Get_spec at ks yield s y))))) ks"
proof (induction ks arbitrary: s y)
  case Nil
  show ?case by simp
next
  case (Cons k ks)
  obtain r s' where a: "at k s = (r, s')" by (cases "at k s")
  show ?case
  proof (cases r)
    case (Inl f)
    with a show ?thesis by simp
  next
    case (Inr found)
    show ?thesis
    proof (cases found)
      case None
      with a Inr show ?thesis by simp
    next
      case (Some i)
      obtain more y' where yl: "yield i y = (more, y')" by (cases "yield i y")
      show ?thesis
      proof (cases more)
        case False
        with a Inr Some yl show ?thesis by simp
      next
        case True
        obtain r2 s2 y2 es2 where
          g: "Get_spec at ks yield s' y' = (r2, s2, y2, es2)"
          by (cases "Get_spec at ks yield s' y'") auto
        have "prefix (calls es2) ks" using Cons.IH [of s' y'] by (simp add: g)
        with a Inr Some yl True g show ?thesis by simp
      qed
    qed
  qed
qed

lemma Get_events_spec:
  "Get_events (Get at frm til yield s y)
     = snd (snd (snd (Get_spec at [frm..til - 1] yield s y)))"
proof -
  obtain r f s' y' es where g: "Get at frm til yield s y = (r, f, s', y', es)"
    by (cases "Get at frm til yield s y") auto
  have "Get_spec at [frm..til - 1] yield s y = (r, s', y', es)"
    using Get_refines_spec [of at frm til yield s y] by (simp add: g)
  then show ?thesis by (simp add: g Get_events_def)
qed

text \<open>
  Claim C9. For every implementation of \<open>At\<close>, every consumer and all integers \<open>from\<close>
  and \<open>to\<close>, a run of the iterator is the walk over the consecutive indices
  \<open>from, from + 1, ..., to - 1\<close> that calls \<open>At\<close> on each in turn, yields the item when
  \<open>At\<close> finds one, and stops at the first index that is not found or when the consumer
  stops; the indices on which \<open>At\<close> was called are an initial segment of that range;
  and when \<open>from \<ge> to\<close> nothing is called and nothing is yielded.
\<close>

theorem Get_walks_range:
  "(case Get at frm til yield s y of (r, frm', s', y', es) \<Rightarrow> (r, s', y', es))
     = Get_spec at [frm..til - 1] yield s y
   \<and> prefix (calls (Get_events (Get at frm til yield s y))) [frm..til - 1]
   \<and> (til \<le> frm \<longrightarrow> Get at frm til yield s y = (None, frm, s, y, []))"
proof (intro conjI)
  show "(case Get at frm til yield s y of (r, frm', s', y', es) \<Rightarrow> (r, s', y', es))
     = Get_spec at [frm..til - 1] yield s y"
    by (rule Get_refines_spec)
  show "prefix (calls (Get_events (Get at frm til yield s y))) [frm..til - 1]"
    unfolding Get_events_spec by (rule Get_spec_calls_prefix)
  show "til \<le> frm \<longrightarrow> Get at frm til yield s y = (None, frm, s, y, [])"
    by (simp add: Get_stop)
qed

theorem Get_walks_range_witness:
  "Get (CachedSlicePaged_At
          \<lparr>name = ''icons'', items = [10, 11, 12 :: nat], pageSize = 2, fetchC = Some 0\<rparr>)
       1 5 Collect_yield (1, []) []
     = (None, 3,
        (4, [SendRequest 0 \<lparr>req_page = 1, req_done = None\<rparr>,
             SendRequest 0 \<lparr>req_page = 0, req_done = Some 1\<rparr>, Receive 1,
             SendRequest 0 \<lparr>req_page = 0, req_done = None\<rparr>,
             SendRequest 0 \<lparr>req_page = 1, req_done = Some 2\<rparr>, Receive 2]),
        [11, 12],
        [CallAt 1, Yield 11, CallAt 2, Yield 12, CallAt 3])
   \<and> Get_spec (CachedSlicePaged_At
          \<lparr>name = ''icons'', items = [10, 11, 12 :: nat], pageSize = 2, fetchC = Some 0\<rparr>)
       [1, 2, 3, 4] Collect_yield (1, []) []
     = (None,
        (4, [SendRequest 0 \<lparr>req_page = 1, req_done = None\<rparr>,
             SendRequest 0 \<lparr>req_page = 0, req_done = Some 1\<rparr>, Receive 1,
             SendRequest 0 \<lparr>req_page = 0, req_done = None\<rparr>,
             SendRequest 0 \<lparr>req_page = 1, req_done = Some 2\<rparr>, Receive 2]),
        [11, 12],
        [CallAt 1, Yield 11, CallAt 2, Yield 12, CallAt 3])
   \<and> prefix [1, 2, 3] [1, 2, 3, 4 :: int]
   \<and> Get (CachedSlicePaged_At
          \<lparr>name = ''icons'', items = [10, 11, 12 :: nat], pageSize = 2, fetchC = Some 0\<rparr>)
       5 2 Collect_yield (1, []) [] = (None, 5, (1, []), [], [])"
proof -
  let ?c = "\<lparr>name = ''icons'', items = [10, 11, 12 :: nat], pageSize = 2, fetchC = Some 0\<rparr>"
  have up: "[1..5 - 1] = [1, 2, 3, 4 :: int]" by (simp add: upto.simps)
  have val: "Get (CachedSlicePaged_At ?c) 1 5 Collect_yield (1, []) []
     = (None, 3,
        (4, [SendRequest 0 \<lparr>req_page = 1, req_done = None\<rparr>,
             SendRequest 0 \<lparr>req_page = 0, req_done = Some 1\<rparr>, Receive 1,
             SendRequest 0 \<lparr>req_page = 0, req_done = None\<rparr>,
             SendRequest 0 \<lparr>req_page = 1, req_done = Some 2\<rparr>, Receive 2]),
        [11, 12],
        [CallAt 1, Yield 11, CallAt 2, Yield 12, CallAt 3])"
    by (simp add: Get.simps CachedSlicePaged_At_def Collect_yield_def facade_eval)
  from Get_walks_range [of "CachedSlicePaged_At ?c" 1 5 Collect_yield "(1, [])" "[]"]
    Get_walks_range [of "CachedSlicePaged_At ?c" 5 2 Collect_yield "(1, [])" "[]"]
  show ?thesis
    unfolding up val by (simp add: Get_events_def)
qed

section \<open>A call of \<open>At\<close> and the coordinator\<close>

lemma sdiv_nonneg: "0 \<le> a \<Longrightarrow> 0 < b \<Longrightarrow> (a :: int) sdiv b = a div b"
  by (cases "a = 0") (simp_all add: signed_divide_int_def)

lemma smod_nonneg: "0 \<le> a \<Longrightarrow> 0 < b \<Longrightarrow> (a :: int) smod b = a mod b"
  by (cases "a = 0") (simp_all add: signed_modulo_int_def)

lemma intCeil_pos:
  "0 \<le> a \<Longrightarrow> 0 < b \<Longrightarrow> intCeil a b = Inr (if a mod b > 0 then a div b + 1 else a div b)"
  by (simp add: intCeil_def sdiv_nonneg smod_nonneg Let_def)

lemma div_lt_exact:
  assumes b: "0 < (b::int)" and lt: "pos < b * k"
  shows "pos div b < k"
proof (rule ccontr)
  assume "\<not> pos div b < k"
  then have "k \<le> pos div b" by simp
  then have "b * k \<le> b * (pos div b)" using b by (simp add: mult_left_mono)
  moreover have "b * (pos div b) + pos mod b = pos" by simp
  moreover have "0 \<le> pos mod b" using b by simp
  ultimately have "b * k \<le> pos" by linarith
  with lt show False by simp
qed

lemma page_lt_ceil:
  assumes "pos < a" "0 < (b :: int)"
  shows "pos div b < (if a mod b > 0 then a div b + 1 else a div b)"
proof (cases "a mod b > 0")
  case True
  have "pos div b \<le> a div b" using assms by (simp add: zdiv_mono1)
  with True show ?thesis by simp
next
  case False
  moreover have "0 \<le> a mod b" using assms(2) by simp
  ultimately have "a mod b = 0" by simp
  moreover have "b * (a div b) + a mod b = a" by simp
  ultimately have "a = b * (a div b)" by linarith
  with assms have "pos div b < a div b" using div_lt_exact [of b pos "a div b"] by simp
  with False show ?thesis by simp
qed

lemma numPages_pos:
  "0 < pageSize c \<Longrightarrow>
   numPages c = Inr (if int (length (items c)) mod pageSize c > 0
                     then int (length (items c)) div pageSize c + 1
                     else int (length (items c)) div pageSize c)"
  by (simp add: numPages_def intCeil_pos)

lemma pageInRange_total:
  "0 < pageSize c \<Longrightarrow> pageInRange c q = Inr True \<or> pageInRange c q = Inr False"
  by (auto simp: pageInRange_def numPages_pos)

lemma pageInRange_of_index:
  assumes "0 \<le> pos" "pos < int (length (items c))" "0 < pageSize c"
  shows "pageInRange c (pos div pageSize c) = Inr True"
proof -
  have "0 \<le> pos div pageSize c" using assms by (simp add: pos_imp_zdiv_nonneg_iff)
  moreover note page_lt_ceil [OF assms(2,3)]
  ultimately show ?thesis using assms(3) by (simp add: pageInRange_def numPages_pos)
qed

text \<open>With a positive page size and a running coordinator, \<open>fetchPagesLater\<close> ends
  without a fault and sends only requests without a channel, for pages of its list.\<close>

lemma fetchPagesLater_sends:
  assumes ps: "0 < pageSize c" and ch: "fetchC c = Some ch"
  shows "snd (fetchPagesLater c qs) = None
         \<and> (\<forall>a \<in> set (fst (fetchPagesLater c qs)).
               \<exists>q \<in> set qs. a = SendRequest ch \<lparr>req_page = q, req_done = None\<rparr>)"
proof (induction qs)
  case Nil
  show ?case by simp
next
  case (Cons q qs)
  from pageInRange_total [OF ps, of q] show ?case
  proof
    assume "pageInRange c q = Inr True"
    with Cons ch show ?thesis by (auto split: prod.splits)
  next
    assume "pageInRange c q = Inr False"
    with Cons show ?thesis by auto
  qed
qed

lemma At_in_range:
  assumes pos: "0 \<le> pos" "pos < int (length (items c))"
    and ps: "0 < pageSize c" and ch: "fetchC c = Some ch"
  shows "At c fresh pos =
           (fst (fetchPagesLater c [pos div pageSize c - 1, pos div pageSize c + 1])
              @ [SendRequest ch \<lparr>req_page = pos div pageSize c, req_done = Some fresh\<rparr>,
                 Receive fresh],
            Inr (Some (items c ! nat pos)))"
proof -
  let ?p = "pos div pageSize c"
  have sd: "pos sdiv pageSize c = ?p" using pos(1) ps by (rule sdiv_nonneg)
  obtain as1 r1 where f1: "fetchPagesLater c [?p - 1, ?p + 1] = (as1, r1)"
    by (cases "fetchPagesLater c [?p - 1, ?p + 1]")
  have "snd (fetchPagesLater c [?p - 1, ?p + 1]) = None"
    using fetchPagesLater_sends [OF ps ch] by blast
  then have r1: "r1 = None" unfolding f1 by simp
  have now: "fetchPageNow c fresh ?p =
      ([SendRequest ch \<lparr>req_page = ?p, req_done = Some fresh\<rparr>, Receive fresh], None)"
    using pageInRange_of_index [OF pos ps] ch by (simp add: fetchPageNow_def)
  show ?thesis
    using pos ps unfolding At_def Let_def sd f1 r1 now by simp
qed

text \<open>A request step never touches the resident set and never starts an unload; it
  starts a load, of the requested page, exactly when that page is neither resident nor
  in flight.\<close>

lemma coordinator_request_effects:
  "\<exists>es st'. coordinator_step st (Request req) = Running es st' \<and> cache st' = cache st
     \<and> (\<forall>q. GoUnloadPage q \<notin> set es)
     \<and> (\<forall>q. (GoLoadPage q \<in> set es) =
             (q = req_page req \<and> \<not> pageCache_contains (cache st) q
                \<and> \<not> loader_isActive (inflight st) q))"
proof (cases "pageCache_contains (cache st) (req_page req)")
  case True
  then show ?thesis by (auto simp: coordinator_step_def split: option.splits)
next
  case False
  note nc = False
  show ?thesis
  proof (cases "loader_isActive (inflight st) (req_page req)")
    case True
    from loader_track_old [OF True] obtain l' where "loader_track (inflight st) req = (False, l')"
      by blast
    with nc True show ?thesis by (auto simp: coordinator_step_def)
  next
    case False
    from loader_track_new [OF False] obtain l' where "loader_track (inflight st) req = (True, l')"
      by blast
    with nc False show ?thesis by (auto simp: coordinator_step_def)
  qed
qed

text \<open>
  Claim C6, as stated, at a concrete run. A cache of 50 items with page size 2 holds
  the pages 20 to 24. A first \<open>At(2)\<close> requests the pages 0, 2 and 1; they become ready
  in the order 0, 1, 2, and the last of them evicts page 0. Page 1 is resident, yet a
  second \<open>At(2)\<close> makes the coordinator start a load worker, for page 0, whose items 0
  and 1 are loaded again.
\<close>

theorem second_At_starts_load_counterexample:
  "At \<lparr>name = ''icons'', items = replicate 50 (0 :: nat), pageSize = 2, fetchC = Some 0\<rparr> 1 2
     = ([SendRequest 0 \<lparr>req_page = 0, req_done = None\<rparr>,
         SendRequest 0 \<lparr>req_page = 2, req_done = None\<rparr>,
         SendRequest 0 \<lparr>req_page = 1, req_done = Some 1\<rparr>, Receive 1], Inr (Some 0))
   \<and> coordinator_run coordinator_zero
        [Request \<lparr>req_page = 20, req_done = None\<rparr>, Ready 20,
         Request \<lparr>req_page = 21, req_done = None\<rparr>, Ready 21,
         Request \<lparr>req_page = 22, req_done = None\<rparr>, Ready 22,
         Request \<lparr>req_page = 23, req_done = None\<rparr>, Ready 23,
         Request \<lparr>req_page = 24, req_done = None\<rparr>, Ready 24,
         Request \<lparr>req_page = 0, req_done = None\<rparr>,
         Request \<lparr>req_page = 2, req_done = None\<rparr>,
         Request \<lparr>req_page = 1, req_done = Some 1\<rparr>,
         Ready 0, Ready 1, Ready 2]
     = ([GoLoadPage 20, GoLoadPage 21, GoLoadPage 22, GoLoadPage 23, GoLoadPage 24,
         GoLoadPage 0, GoLoadPage 2, GoLoadPage 1,
         GoUnloadPage 23, GoUnloadPage 22, Send 1 1, GoUnloadPage 0],
        Running [] \<lparr>cache = \<lparr>pages = [1, 2, 20, 21, 22]\<rparr>, inflight = \<lparr>loading = []\<rparr>\<rparr>)
   \<and> pageCache_contains \<lparr>pages = [1, 2, 20, 21, 22]\<rparr> 1
   \<and> At \<lparr>name = ''icons'', items = replicate 50 (0 :: nat), pageSize = 2, fetchC = Some 0\<rparr> 2 2
     = ([SendRequest 0 \<lparr>req_page = 0, req_done = None\<rparr>,
         SendRequest 0 \<lparr>req_page = 2, req_done = None\<rparr>,
         SendRequest 0 \<lparr>req_page = 1, req_done = Some 2\<rparr>, Receive 2], Inr (Some 0))
   \<and> coordinator_run \<lparr>cache = \<lparr>pages = [1, 2, 20, 21, 22]\<rparr>, inflight = \<lparr>loading = []\<rparr>\<rparr>
        (requests (fst (At \<lparr>name = ''icons'', items = replicate 50 (0 :: nat), pageSize = 2,
           fetchC = Some 0\<rparr> 2 2)))
     = ([GoLoadPage 0, Send 2 1],
        Running [] \<lparr>cache = \<lparr>pages = [1, 2, 20, 21, 22]\<rparr>,
                    inflight = \<lparr>loading = [\<lparr>p_page = 0, reply = []\<rparr>]\<rparr>\<rparr>)
   \<and> mapPageItems \<lparr>name = ''icons'', items = replicate 50 (0 :: nat), pageSize = 2,
        fetchC = Some 0\<rparr> 0 = Inr [0, 1]"
proof (intro conjI)
  show "At \<lparr>name = ''icons'', items = replicate 50 (0 :: nat), pageSize = 2, fetchC = Some 0\<rparr> 1 2
     = ([SendRequest 0 \<lparr>req_page = 0, req_done = None\<rparr>,
         SendRequest 0 \<lparr>req_page = 2, req_done = None\<rparr>,
         SendRequest 0 \<lparr>req_page = 1, req_done = Some 1\<rparr>, Receive 1], Inr (Some 0))"
    by (simp add: facade_eval)
  show "At \<lparr>name = ''icons'', items = replicate 50 (0 :: nat), pageSize = 2, fetchC = Some 0\<rparr> 2 2
     = ([SendRequest 0 \<lparr>req_page = 0, req_done = None\<rparr>,
         SendRequest 0 \<lparr>req_page = 2, req_done = None\<rparr>,
         SendRequest 0 \<lparr>req_page = 1, req_done = Some 2\<rparr>, Receive 2], Inr (Some 0))"
    by (simp add: facade_eval)
  show "pageCache_contains \<lparr>pages = [1, 2, 20, 21, 22]\<rparr> 1"
    by (simp add: pageCache_eval)
  show "mapPageItems \<lparr>name = ''icons'', items = replicate 50 (0 :: nat), pageSize = 2,
        fetchC = Some 0\<rparr> 0 = Inr [0, 1]"
    by (simp add: facade_eval upto.simps)
  show "coordinator_run \<lparr>cache = \<lparr>pages = [1, 2, 20, 21, 22]\<rparr>, inflight = \<lparr>loading = []\<rparr>\<rparr>
        (requests (fst (At \<lparr>name = ''icons'', items = replicate 50 (0 :: nat), pageSize = 2,
           fetchC = Some 0\<rparr> 2 2)))
     = ([GoLoadPage 0, Send 2 1],
        Running [] \<lparr>cache = \<lparr>pages = [1, 2, 20, 21, 22]\<rparr>,
                    inflight = \<lparr>loading = [\<lparr>p_page = 0, reply = []\<rparr>]\<rparr>\<rparr>)"
    by (simp add: facade_eval coordinator_eval)
  show "coordinator_run coordinator_zero
        [Request \<lparr>req_page = 20, req_done = None\<rparr>, Ready 20,
         Request \<lparr>req_page = 21, req_done = None\<rparr>, Ready 21,
         Request \<lparr>req_page = 22, req_done = None\<rparr>, Ready 22,
         Request \<lparr>req_page = 23, req_done = None\<rparr>, Ready 23,
         Request \<lparr>req_page = 24, req_done = None\<rparr>, Ready 24,
         Request \<lparr>req_page = 0, req_done = None\<rparr>,
         Request \<lparr>req_page = 2, req_done = None\<rparr>,
         Request \<lparr>req_page = 1, req_done = Some 1\<rparr>,
         Ready 0, Ready 1, Ready 2]
     = ([GoLoadPage 20, GoLoadPage 21, GoLoadPage 22, GoLoadPage 23, GoLoadPage 24,
         GoLoadPage 0, GoLoadPage 2, GoLoadPage 1,
         GoUnloadPage 23, GoUnloadPage 22, Send 1 1, GoUnloadPage 0],
        Running [] \<lparr>cache = \<lparr>pages = [1, 2, 20, 21, 22]\<rparr>, inflight = \<lparr>loading = []\<rparr>\<rparr>)"
    by (simp add: coordinator_eval)
qed

text \<open>
  Claim C6, amended. A request for a page of the resident set is answered at once: the
  page number is sent on the request's channel if it has one, nothing is done
  otherwise, and the resident set and the tracker are unchanged and no worker is
  started. No request step changes the resident set or starts an unload, and it starts
  a load, of the requested page, exactly when that page is neither resident nor in
  flight. So of the requests of a call \<open>At(i)\<close> for a resident index, the blocking one,
  for the page of \<open>i\<close>, is answered without a load; the others are requests without a
  channel for the two neighbouring pages.
\<close>

theorem coordinator_request_resident:
  "(pageCache_contains (cache st) (req_page req) \<longrightarrow>
      coordinator_step st (Request req) =
        Running (case req_done req of None \<Rightarrow> [] | Some ch \<Rightarrow> [Send ch (req_page req)]) st)
   \<and> (\<exists>es st'. coordinator_step st (Request req) = Running es st' \<and> cache st' = cache st
         \<and> (\<forall>q. GoUnloadPage q \<notin> set es)
         \<and> (\<forall>q. (GoLoadPage q \<in> set es) =
                 (q = req_page req \<and> \<not> pageCache_contains (cache st) q
                    \<and> \<not> loader_isActive (inflight st) q)))
   \<and> (0 \<le> pos \<and> pos < int (length (items c)) \<and> 0 < pageSize c \<and> fetchC c = Some ch
        \<and> pageCache_contains (cache st) (pos div pageSize c) \<longrightarrow>
        (\<exists>pre. At c fresh pos =
                  (pre @ [SendRequest ch \<lparr>req_page = pos div pageSize c, req_done = Some fresh\<rparr>,
                          Receive fresh],
                   Inr (Some (items c ! nat pos)))
           \<and> (\<forall>a \<in> set pre.
                 a = SendRequest ch \<lparr>req_page = pos div pageSize c - 1, req_done = None\<rparr>
                 \<or> a = SendRequest ch \<lparr>req_page = pos div pageSize c + 1, req_done = None\<rparr>)
           \<and> coordinator_step st
                 (Request \<lparr>req_page = pos div pageSize c, req_done = Some fresh\<rparr>)
               = Running [Send fresh (pos div pageSize c)] st))"
proof (intro conjI impI)
  show "coordinator_step st (Request req) =
        Running (case req_done req of None \<Rightarrow> [] | Some ch \<Rightarrow> [Send ch (req_page req)]) st"
    if "pageCache_contains (cache st) (req_page req)"
    using that by (simp add: coordinator_step_def split: option.splits)
  show "\<exists>es st'. coordinator_step st (Request req) = Running es st' \<and> cache st' = cache st
         \<and> (\<forall>q. GoUnloadPage q \<notin> set es)
         \<and> (\<forall>q. (GoLoadPage q \<in> set es) =
                 (q = req_page req \<and> \<not> pageCache_contains (cache st) q
                    \<and> \<not> loader_isActive (inflight st) q))"
    by (rule coordinator_request_effects)
  show "\<exists>pre. At c fresh pos =
                  (pre @ [SendRequest ch \<lparr>req_page = pos div pageSize c, req_done = Some fresh\<rparr>,
                          Receive fresh],
                   Inr (Some (items c ! nat pos)))
           \<and> (\<forall>a \<in> set pre.
                 a = SendRequest ch \<lparr>req_page = pos div pageSize c - 1, req_done = None\<rparr>
                 \<or> a = SendRequest ch \<lparr>req_page = pos div pageSize c + 1, req_done = None\<rparr>)
           \<and> coordinator_step st
                 (Request \<lparr>req_page = pos div pageSize c, req_done = Some fresh\<rparr>)
               = Running [Send fresh (pos div pageSize c)] st"
    if h: "0 \<le> pos \<and> pos < int (length (items c)) \<and> 0 < pageSize c \<and> fetchC c = Some ch
        \<and> pageCache_contains (cache st) (pos div pageSize c)"
  proof -
    let ?p = "pos div pageSize c"
    from h have at: "At c fresh pos =
           (fst (fetchPagesLater c [?p - 1, ?p + 1])
              @ [SendRequest ch \<lparr>req_page = ?p, req_done = Some fresh\<rparr>, Receive fresh],
            Inr (Some (items c ! nat pos)))"
      by (simp add: At_in_range)
    from h have "\<forall>a \<in> set (fst (fetchPagesLater c [?p - 1, ?p + 1])).
               \<exists>q \<in> set [?p - 1, ?p + 1]. a = SendRequest ch \<lparr>req_page = q, req_done = None\<rparr>"
      using fetchPagesLater_sends [of c ch "[?p - 1, ?p + 1]"] by blast
    then have pre: "\<forall>a \<in> set (fst (fetchPagesLater c [?p - 1, ?p + 1])).
                 a = SendRequest ch \<lparr>req_page = ?p - 1, req_done = None\<rparr>
                 \<or> a = SendRequest ch \<lparr>req_page = ?p + 1, req_done = None\<rparr>"
      by (simp del: fetchPagesLater.simps)
    from h have step: "coordinator_step st (Request \<lparr>req_page = ?p, req_done = Some fresh\<rparr>)
               = Running [Send fresh ?p] st"
      by (simp add: coordinator_step_def)
    from at pre step show ?thesis by blast
  qed
qed

theorem coordinator_request_resident_witness:
  "pageCache_contains (cache \<lparr>cache = \<lparr>pages = [1, 2, 20, 21, 22]\<rparr>,
        inflight = \<lparr>loading = [\<lparr>p_page = 5, reply = [7]\<rparr>]\<rparr>\<rparr>) 1
   \<and> coordinator_step \<lparr>cache = \<lparr>pages = [1, 2, 20, 21, 22]\<rparr>,
        inflight = \<lparr>loading = [\<lparr>p_page = 5, reply = [7]\<rparr>]\<rparr>\<rparr>
        (Request \<lparr>req_page = 1, req_done = Some 9\<rparr>)
       = Running [Send 9 1] \<lparr>cache = \<lparr>pages = [1, 2, 20, 21, 22]\<rparr>,
        inflight = \<lparr>loading = [\<lparr>p_page = 5, reply = [7]\<rparr>]\<rparr>\<rparr>
   \<and> (0 :: int) \<le> 2 \<and> (2 :: int) < int (length (items
        \<lparr>name = ''icons'', items = replicate 50 (0 :: nat), pageSize = 2, fetchC = Some 0\<rparr>))
   \<and> (\<exists>pre. At \<lparr>name = ''icons'', items = replicate 50 (0 :: nat), pageSize = 2,
                  fetchC = Some 0\<rparr> 9 2
               = (pre @ [SendRequest 0 \<lparr>req_page = 1, req_done = Some 9\<rparr>, Receive 9],
                  Inr (Some 0)))"
proof -
  let ?st = "\<lparr>cache = \<lparr>pages = [1, 2, 20, 21, 22]\<rparr>,
        inflight = \<lparr>loading = [\<lparr>p_page = 5, reply = [7]\<rparr>]\<rparr>\<rparr>"
  let ?c = "\<lparr>name = ''icons'', items = replicate 50 (0 :: nat), pageSize = 2, fetchC = Some 0\<rparr>"
  have res: "pageCache_contains (cache ?st) 1" by (simp add: pageCache_eval)
  have h: "0 \<le> (2 :: int) \<and> 2 < int (length (items ?c)) \<and> 0 < pageSize ?c
      \<and> fetchC ?c = Some 0 \<and> pageCache_contains (cache ?st) (2 div pageSize ?c)"
    using res by simp
  note inst = coordinator_request_resident
    [of ?st "\<lparr>req_page = 1, req_done = Some 9\<rparr>" 2 ?c 0 9]
  from inst res have a: "coordinator_step ?st (Request \<lparr>req_page = 1, req_done = Some 9\<rparr>)
       = Running [Send 9 1] ?st"
    by simp
  from inst h have "\<exists>pre. At ?c 9 2 =
      (pre @ [SendRequest 0 \<lparr>req_page = 2 div pageSize ?c, req_done = Some 9\<rparr>, Receive 9],
       Inr (Some (items ?c ! nat 2)))"
    by blast
  then have b: "\<exists>pre. At ?c 9 2
               = (pre @ [SendRequest 0 \<lparr>req_page = 1, req_done = Some 9\<rparr>, Receive 9],
                  Inr (Some 0))"
    by simp
  from res a b show ?thesis by simp
qed

end
